theory Spec2Isabelle
  imports Complex_Main "HOL-Library.Multiset"
begin

section \<open>Python lists: indexing, item assignment and slices\<close>

text \<open>
  The solver of \<^verbatim>\<open>src/tsp_solver.py\<close> (repeated in \<^verbatim>\<open>src/tsp.py\<close>) works on Python
  lists. A read \<^verbatim>\<open>xs[i]\<close> or a write \<^verbatim>\<open>xs[i] = v\<close> with an integer \<^verbatim>\<open>i\<close> counts a
  negative index from the end and raises \<^verbatim>\<open>IndexError\<close> outside \<^verbatim>\<open>[-len, len)\<close>; an
  index \<^verbatim>\<open>None\<close> raises \<^verbatim>\<open>TypeError\<close>. Exceptions are values of type \<open>error\<close>, and a
  function that may raise returns \<open>error + 'a\<close>.
\<close>

datatype error = IndexError | TypeError

definition py_get :: "'a list \<Rightarrow> int \<Rightarrow> error + 'a" where
  "py_get xs i =
     (let n = int (length xs) in
      if 0 \<le> i \<and> i < n then Inr (xs ! nat i)
      else if - n \<le> i \<and> i < 0 then Inr (xs ! nat (i + n))
      else Inl IndexError)"

definition py_set :: "'a list \<Rightarrow> int \<Rightarrow> 'a \<Rightarrow> error + 'a list" where
  "py_set xs i v =
     (let n = int (length xs) in
      if 0 \<le> i \<and> i < n then Inr (xs[nat i := v])
      else if - n \<le> i \<and> i < 0 then Inr (xs[nat (i + n) := v])
      else Inl IndexError)"

text \<open>
  A slice bound is normalised first: a negative bound has the length added and is then
  raised to 0, a bound beyond the length is lowered to the length. The slice
  \<^verbatim>\<open>xs[lo:hi]\<close> holds the elements from the normalised \<^verbatim>\<open>lo\<close> up to, and without, the
  normalised \<^verbatim>\<open>hi\<close>; it is empty when the bounds cross. Slicing never raises.
\<close>

definition py_bound :: "nat \<Rightarrow> int \<Rightarrow> nat" where
  "py_bound n k = (if k < 0 then nat (max 0 (k + int n)) else min (nat k) n)"

definition py_slice :: "'a list \<Rightarrow> int \<Rightarrow> int \<Rightarrow> 'a list" where
  "py_slice xs lo hi =
     (let a = py_bound (length xs) lo; b = py_bound (length xs) hi
      in take (b - a) (drop a xs))"

definition py_slice_to :: "'a list \<Rightarrow> int \<Rightarrow> 'a list" where
  "py_slice_to xs hi = take (py_bound (length xs) hi) xs"

definition py_slice_from :: "'a list \<Rightarrow> int \<Rightarrow> 'a list" where
  "py_slice_from xs lo = drop (py_bound (length xs) lo) xs"

section \<open>Tour length\<close>

text \<open>
  Distances are the entries of the matrix, a list of rows. The functions only add them
  (from the left, starting at \<^verbatim>\<open>0\<close>) and compare them with \<^verbatim>\<open><\<close>, so the model leaves
  the number type open: any linearly ordered type with an addition and a zero. No law
  of addition is used anywhere below, so the results do not depend on addition being
  exact. A tour is a list of integers.

  \<^verbatim>\<open>
  def calculate_path_distance(path, distance_matrix):
      total = 0
      for i in range(len(path) - 1):
          total += distance_matrix[path[i]][path[i + 1]]
      return total
  \<close>
  \<^verbatim>\<open>path[i]\<close> and \<^verbatim>\<open>path[i + 1]\<close> are always in range; the two reads of the matrix may
  raise. \<open>path_distance_from\<close> is the loop over the consecutive pairs of the rest of the
  path, with the running total \<open>tot\<close>.
\<close>

fun path_distance_from ::
  "'a::{linorder,plus,zero} list list \<Rightarrow> 'a \<Rightarrow> int list \<Rightarrow> error + 'a" where
  "path_distance_from M tot (a # b # rest) =
     (case py_get M a of
        Inl e \<Rightarrow> Inl e
      | Inr row \<Rightarrow>
          (case py_get row b of
             Inl e \<Rightarrow> Inl e
           | Inr d \<Rightarrow> path_distance_from M (tot + d) (b # rest)))"
| "path_distance_from M tot rest = Inr tot"

definition calculate_path_distance ::
  "int list \<Rightarrow> 'a::{linorder,plus,zero} list list \<Rightarrow> error + 'a" where
  "calculate_path_distance path distance_matrix = path_distance_from distance_matrix 0 path"

section \<open>The 2-opt move\<close>

text \<open>
  \<^verbatim>\<open>
  def two_opt_swap(path, i, j):
      new_path = path[:i]
      new_path.extend(reversed(path[i:j + 1]))
      new_path.extend(path[j + 1:])
      return new_path
  \<close>
\<close>

definition two_opt_swap :: "'b list \<Rightarrow> int \<Rightarrow> int \<Rightarrow> 'b list" where
  "two_opt_swap path i j =
     py_slice_to path i @ rev (py_slice path i (j + 1)) @ py_slice_from path (j + 1)"

section \<open>2-opt local search\<close>

text \<open>
  \<^verbatim>\<open>
  def two_opt_improvement(path, distance_matrix):
      improved = True
      best_path = path
      best_distance = calculate_path_distance(path, distance_matrix)
      while improved:
          improved = False
          for i in range(1, len(best_path) - 2):
              for j in range(i + 1, len(best_path) - 1):
                  new_path = two_opt_swap(best_path, i, j)
                  new_distance = calculate_path_distance(new_path, distance_matrix)
                  if new_distance < best_distance:
                      best_path = new_path
                      best_distance = new_distance
                      improved = True
                      break
              if improved:
                  break
      return best_path
  \<close>
  One pass of the two \<^verbatim>\<open>for\<close> loops either raises, or ends without an improving pair
  (\<open>None\<close>), or breaks out of both loops at the first improving pair with the new
  \<^verbatim>\<open>best_path\<close> and \<^verbatim>\<open>best_distance\<close>. \<open>scan_j\<close> is the inner loop over the remaining
  values of \<^verbatim>\<open>j\<close>, \<open>scan_i\<close> the outer loop over the remaining values of \<^verbatim>\<open>i\<close>. The
  ranges are \<^verbatim>\<open>range(1, len - 2)\<close> and \<^verbatim>\<open>range(i + 1, len - 1)\<close>; both are empty when
  the upper end is not above the lower one, as \<open>[a..<b]\<close> is, and the truncated
  subtraction of \<open>nat\<close> only produces upper ends that leave the range empty.
\<close>

fun scan_j ::
  "'a::{linorder,plus,zero} list list \<Rightarrow> int list \<Rightarrow> 'a \<Rightarrow> nat \<Rightarrow> nat list
     \<Rightarrow> error + (int list \<times> 'a) option" where
  "scan_j M best_path best_distance i [] = Inr None"
| "scan_j M best_path best_distance i (j # js) =
     (let new_path = two_opt_swap best_path (int i) (int j) in
      case calculate_path_distance new_path M of
        Inl e \<Rightarrow> Inl e
      | Inr new_distance \<Rightarrow>
          if new_distance < best_distance then Inr (Some (new_path, new_distance))
          else scan_j M best_path best_distance i js)"

fun scan_i ::
  "'a::{linorder,plus,zero} list list \<Rightarrow> int list \<Rightarrow> 'a \<Rightarrow> nat list
     \<Rightarrow> error + (int list \<times> 'a) option" where
  "scan_i M best_path best_distance [] = Inr None"
| "scan_i M best_path best_distance (i # is) =
     (case scan_j M best_path best_distance i [i + 1 ..< length best_path - 1] of
        Inl e \<Rightarrow> Inl e
      | Inr (Some found) \<Rightarrow> Inr (Some found)
      | Inr None \<Rightarrow> scan_i M best_path best_distance is)"

definition two_opt_pass ::
  "'a::{linorder,plus,zero} list list \<Rightarrow> int list \<Rightarrow> 'a \<Rightarrow> error + (int list \<times> 'a) option" where
  "two_opt_pass M best_path best_distance =
     scan_i M best_path best_distance [1 ..< length best_path - 2]"

text \<open>
  The \<^verbatim>\<open>while\<close> loop has no bound on its number of rounds, so it is a partial function:
  the value \<open>None\<close> stands for a loop that never ends, \<open>Some (Inl e)\<close> for an exception,
  \<open>Some (Inr p)\<close> for the returned path.
\<close>

partial_function (option) two_opt_loop ::
  "'a::{linorder,plus,zero} list list \<Rightarrow> int list \<Rightarrow> 'a \<Rightarrow> (error + int list) option" where
  "two_opt_loop M best_path best_distance =
     (case two_opt_pass M best_path best_distance of
        Inl e \<Rightarrow> Some (Inl e)
      | Inr None \<Rightarrow> Some (Inr best_path)
      | Inr (Some (new_path, new_distance)) \<Rightarrow> two_opt_loop M new_path new_distance)"

definition two_opt_improvement ::
  "int list \<Rightarrow> 'a::{linorder,plus,zero} list list \<Rightarrow> (error + int list) option" where
  "two_opt_improvement path distance_matrix =
     (case calculate_path_distance path distance_matrix of
        Inl e \<Rightarrow> Some (Inl e)
      | Inr best_distance \<Rightarrow> two_opt_loop distance_matrix path best_distance)"

declare two_opt_loop.simps [code]

section \<open>Greedy construction\<close>

text \<open>
  \<^verbatim>\<open>
  def greedy_tsp(distance_matrix, start_index=0):
      n = len(distance_matrix)
      visited = [False] * n
      path = [start_index]
      visited[start_index] = True
      for _ in range(n - 1):
          current = path[-1]
          next_place = None
          min_distance = float('inf')
          for candidate in range(n):
              if not visited[candidate] and distance_matrix[current][candidate] < min_distance:
                  next_place = candidate
                  min_distance = distance_matrix[current][candidate]
          path.append(next_place)
          visited[next_place] = True
      return path
  \<close>
  \<^verbatim>\<open>min_distance\<close> starts at \<^verbatim>\<open>float('inf')\<close>, and an entry of the matrix is compared
  with it by \<^verbatim>\<open><\<close>. That comparison is false for an entry that is itself infinite or
  not a number, so here the entries are Python floats with their special values: a
  finite number \<open>Num x\<close>, \<open>PosInf\<close>, \<open>NegInf\<close> or \<open>NaN\<close>. \<open>py_less\<close> is \<^verbatim>\<open><\<close> on them:
  false whenever a side is \<open>NaN\<close>, and otherwise the order with \<open>NegInf\<close> below and
  \<open>PosInf\<close> above every finite number.

  \<^verbatim>\<open>next_place\<close> is an optional index. The conjunction is evaluated from the left, so
  the matrix is read only for a candidate that is not visited. \<open>scan_candidates\<close> is the
  inner loop over the remaining candidates, \<open>greedy_rounds\<close> the outer loop with the
  number of rounds left. When \<^verbatim>\<open>next_place\<close> is still \<^verbatim>\<open>None\<close> after the scan,
  \<^verbatim>\<open>visited[None] = True\<close> raises \<^verbatim>\<open>TypeError\<close>.
\<close>

datatype 'a pyfloat = Num 'a | PosInf | NegInf | NaN

fun py_less :: "'a::linorder pyfloat \<Rightarrow> 'a pyfloat \<Rightarrow> bool" where
  "py_less NaN y = False"
| "py_less x NaN = False"
| "py_less PosInf y = False"
| "py_less x NegInf = False"
| "py_less NegInf y = True"
| "py_less x PosInf = True"
| "py_less (Num a) (Num b) = (a < b)"

fun scan_candidates ::
  "'a::linorder pyfloat list list \<Rightarrow> bool list \<Rightarrow> int \<Rightarrow> nat list
     \<Rightarrow> nat option \<times> 'a pyfloat \<Rightarrow> error + (nat option \<times> 'a pyfloat)" where
  "scan_candidates M visited current [] (next_place, min_distance) =
     Inr (next_place, min_distance)"
| "scan_candidates M visited current (candidate # rest) (next_place, min_distance) =
     (case py_get visited (int candidate) of
        Inl e \<Rightarrow> Inl e
      | Inr seen \<Rightarrow>
          if seen then scan_candidates M visited current rest (next_place, min_distance)
          else
            (case py_get M current of
               Inl e \<Rightarrow> Inl e
             | Inr row \<Rightarrow>
                 (case py_get row (int candidate) of
                    Inl e \<Rightarrow> Inl e
                  | Inr d \<Rightarrow>
                      if py_less d min_distance
                      then scan_candidates M visited current rest (Some candidate, d)
                      else scan_candidates M visited current rest (next_place, min_distance))))"

fun greedy_rounds ::
  "'a::linorder pyfloat list list \<Rightarrow> nat \<Rightarrow> nat \<Rightarrow> bool list \<Rightarrow> int list
     \<Rightarrow> error + int list" where
  "greedy_rounds M n 0 visited path = Inr path"
| "greedy_rounds M n (Suc k) visited path =
     (case py_get path (- 1) of
        Inl e \<Rightarrow> Inl e
      | Inr current \<Rightarrow>
          (case scan_candidates M visited current [0 ..< n] (None, PosInf) of
             Inl e \<Rightarrow> Inl e
           | Inr (None, min_distance) \<Rightarrow> Inl TypeError
           | Inr (Some next_place, min_distance) \<Rightarrow>
               (case py_set visited (int next_place) True of
                  Inl e \<Rightarrow> Inl e
                | Inr visited' \<Rightarrow>
                    greedy_rounds M n k visited' (path @ [int next_place]))))"

definition greedy_tsp :: "'a::linorder pyfloat list list \<Rightarrow> int \<Rightarrow> error + int list" where
  "greedy_tsp distance_matrix start_index =
     (let n = length distance_matrix;
          visited = replicate n False;
          path = [start_index]
      in case py_set visited start_index True of
           Inl e \<Rightarrow> Inl e
         | Inr visited' \<Rightarrow> greedy_rounds distance_matrix n (n - 1) visited' path)"

section \<open>The measure of the local search\<close>

text \<open>
  The rearrangements of \<open>best_path\<close> whose length can be computed and lies strictly below
  \<open>best_distance\<close>: the paths the search can still move to. There are finitely many, and
  every accepted move removes at least the path moved to.
\<close>

definition improving :: "'a::{linorder,plus,zero} list list \<Rightarrow> int list \<Rightarrow> 'a \<Rightarrow> int list set" where
  "improving M best_path best_distance =
     {q. mset q = mset best_path \<and>
         (case calculate_path_distance q M of Inl e \<Rightarrow> False | Inr c \<Rightarrow> c < best_distance)}"

text \<open>
  The values that \<^verbatim>\<open>best_path\<close> and \<^verbatim>\<open>best_distance\<close> take at the head of the
  \<^verbatim>\<open>while\<close> loop in the run of \<^verbatim>\<open>two_opt_improvement(path, distance_matrix)\<close>: the
  initial pair, and the pair after every accepted move.
\<close>

inductive two_opt_state ::
  "'a::{linorder,plus,zero} list list \<Rightarrow> int list \<Rightarrow> int list \<Rightarrow> 'a \<Rightarrow> bool"
  for M :: "'a list list" and path :: "int list" where
  initial: "calculate_path_distance path M = Inr d \<Longrightarrow> two_opt_state M path path d"
| accepted: "two_opt_state M path best_path best_distance \<Longrightarrow>
     two_opt_pass M best_path best_distance = Inr (Some (new_path, new_distance)) \<Longrightarrow>
     two_opt_state M path new_path new_distance"

section \<open>Auxiliary notions for the proofs\<close>

text \<open>The candidates that are not yet marked in \<^verbatim>\<open>visited\<close>.\<close>

definition unvisited :: "bool list \<Rightarrow> nat set" where
  "unvisited visited = {c. c < length visited \<and> \<not> visited ! c}"

text \<open>
  An example matrix: four points on a line, one unit apart. The path \<^verbatim>\<open>[0, 2, 1, 3]\<close>
  has length 5 on it, and reversing its middle segment gives \<^verbatim>\<open>[0, 1, 2, 3]\<close> of
  length 3.
\<close>

definition line4 :: "real list list" where
  "line4 = [[0, 1, 2, 3], [1, 0, 1, 2], [2, 1, 0, 1], [3, 2, 1, 0]]"

text \<open>The same matrix with its entries as Python floats, all of them finite.\<close>

definition line4_floats :: "real pyfloat list list" where
  "line4_floats = map (map Num) line4"

section \<open>Indexing at indices in range\<close>

lemma py_get_nat: "k < length xs \<Longrightarrow> py_get xs (int k) = Inr (xs ! k)"
  by (simp add: py_get_def)

lemma py_set_nat: "k < length xs \<Longrightarrow> py_set xs (int k) v = Inr (xs[k := v])"
  by (simp add: py_set_def)

lemma py_get_last: "xs \<noteq> [] \<Longrightarrow> py_get xs (- 1) = Inr (last xs)"
  by (cases xs rule: rev_cases) (auto simp: py_get_def Let_def nth_append)

lemma py_get_row:
  assumes "- int (length M) \<le> i" "i < int (length M)"
  shows "\<exists>row\<in>set M. py_get M i = Inr row"
proof (cases "0 \<le> i")
  case True
  then have "nat i < length M" using assms by linarith
  then show ?thesis using True assms by (auto simp: py_get_def Let_def)
next
  case False
  then have "nat (i + int (length M)) < length M" using assms by linarith
  then show ?thesis using False assms by (auto simp: py_get_def Let_def)
qed

section \<open>Slices and the 2-opt move at indices in range\<close>

lemma py_bound_int [simp]: "py_bound n (int k) = min k n"
  by (simp add: py_bound_def)

lemma py_bound_int_Suc [simp]: "py_bound n (int k + 1) = min (Suc k) n"
  using py_bound_int [of n "Suc k"] by (simp add: add.commute)

lemma two_opt_swap_nat:
  "two_opt_swap p (int i) (int j) =
     take i p
     @ rev (take (min (Suc j) (length p) - min i (length p)) (drop (min i (length p)) p))
     @ drop (Suc j) p"
  by (simp add: two_opt_swap_def py_slice_def py_slice_to_def py_slice_from_def Let_def min_def)

lemma two_opt_swap_in_range:
  assumes "i \<le> j" "j < length p"
  shows "two_opt_swap p (int i) (int j) =
           take i p @ rev (take (Suc j - i) (drop i p)) @ drop (Suc j) p"
  using assms by (simp add: two_opt_swap_nat min_def)

lemma take_take_drop:
  assumes "i \<le> j" "j < length p"
  shows "take i p @ take (Suc j - i) (drop i p) @ drop (Suc j) p = p"
proof -
  have "take (Suc j - i) (drop i p) @ drop (Suc j) p = drop i p"
    using assms by (metis append_take_drop_id drop_drop le_add_diff_inverse2 le_SucI)
  then show ?thesis by simp
qed

lemma mset_two_opt_swap:
  assumes "i \<le> j" "j < length p"
  shows "mset (two_opt_swap p (int i) (int j)) = mset p"
proof -
  have "mset (two_opt_swap p (int i) (int j)) =
          mset (take i p @ take (Suc j - i) (drop i p) @ drop (Suc j) p)"
    using assms by (simp add: two_opt_swap_in_range)
  then show ?thesis using take_take_drop [OF assms] by simp
qed

section \<open>One pass of the pair scan\<close>

lemma scan_j_Some:
  "scan_j M bp bd i js = Inr (Some (np, nd)) \<Longrightarrow>
     \<exists>j\<in>set js. np = two_opt_swap bp (int i) (int j)
        \<and> calculate_path_distance np M = Inr nd \<and> nd < bd"
  by (induction js) (auto simp: Let_def split: sum.splits if_splits)

lemma scan_i_Some:
  "scan_i M bp bd is = Inr (Some (np, nd)) \<Longrightarrow>
     \<exists>i\<in>set is. \<exists>j. i < j \<and> Suc j < length bp \<and> np = two_opt_swap bp (int i) (int j)
        \<and> calculate_path_distance np M = Inr nd \<and> nd < bd"
proof (induction "is")
  case Nil
  then show ?case by simp
next
  case (Cons i "is")
  show ?case
  proof (cases "scan_j M bp bd i [i + 1 ..< length bp - 1]")
    case (Inl e)
    with Cons.prems show ?thesis by simp
  next
    case (Inr r)
    show ?thesis
    proof (cases r)
      case None
      with Inr Cons show ?thesis by simp
    next
      case (Some found)
      with Inr Cons.prems
      have "scan_j M bp bd i [i + 1 ..< length bp - 1] = Inr (Some (np, nd))"
        by simp
      from scan_j_Some [OF this] obtain j where
        "j \<in> set [i + 1 ..< length bp - 1]" "np = two_opt_swap bp (int i) (int j)"
        "calculate_path_distance np M = Inr nd" "nd < bd" by blast
      moreover from this have "i < j" "Suc j < length bp" by auto
      ultimately show ?thesis by auto
    qed
  qed
qed

lemma two_opt_pass_Some:
  assumes "two_opt_pass M bp bd = Inr (Some (np, nd))"
  shows "\<exists>i j. 1 \<le> i \<and> i < j \<and> j + 2 \<le> length bp \<and> np = two_opt_swap bp (int i) (int j)
        \<and> calculate_path_distance np M = Inr nd \<and> nd < bd"
  using scan_i_Some [OF assms [unfolded two_opt_pass_def]] by fastforce

lemma two_opt_pass_mset:
  assumes "two_opt_pass M bp bd = Inr (Some (np, nd))"
  shows "mset np = mset bp"
  using two_opt_pass_Some [OF assms] by (auto simp: mset_two_opt_swap)

section \<open>Termination of the local search\<close>

lemma finite_improving: "finite (improving M bp bd)"
  by (rule finite_subset [OF _ mset_eq_finite [of bp]]) (auto simp: improving_def)

lemma improving_decreases:
  assumes "two_opt_pass M bp bd = Inr (Some (np, nd))"
  shows "improving M np nd \<subset> improving M bp bd"
proof -
  from two_opt_pass_Some [OF assms] two_opt_pass_mset [OF assms]
  have d: "calculate_path_distance np M = Inr nd" "nd < bd" and m: "mset np = mset bp"
    by auto
  have "improving M np nd \<subseteq> improving M bp bd"
    using d m by (auto simp: improving_def split: sum.splits)
  moreover have "np \<in> improving M bp bd" using d m by (simp add: improving_def)
  moreover have "np \<notin> improving M np nd" using d by (simp add: improving_def)
  ultimately show ?thesis by blast
qed

text \<open>
  Induction over the rounds of the \<^verbatim>\<open>while\<close> loop: a property holds of every pair of
  \<^verbatim>\<open>best_path\<close> and \<^verbatim>\<open>best_distance\<close> when it holds of a pair as soon as it holds of
  the pair that an accepted move leads to.
\<close>

lemma two_opt_loop_induct [case_names round]:
  assumes "\<And>bp bd. (\<And>np nd. two_opt_pass M bp bd = Inr (Some (np, nd)) \<Longrightarrow> P np nd) \<Longrightarrow> P bp bd"
  shows "P bp bd"
proof -
  have "wf (measure (\<lambda>(bp, bd). card (improving M bp bd)))" by simp
  then have "P (fst s) (snd s)" for s
  proof (induction s rule: wf_induct_rule)
    case (less s)
    show ?case
    proof (rule assms)
      fix np nd
      assume a: "two_opt_pass M (fst s) (snd s) = Inr (Some (np, nd))"
      have "card (improving M np nd) < card (improving M (fst s) (snd s))"
        by (rule psubset_card_mono [OF finite_improving improving_decreases [OF a]])
      then have "((np, nd), s) \<in> measure (\<lambda>(bp, bd). card (improving M bp bd))"
        by (simp add: case_prod_beta)
      from less [OF this] show "P np nd" by simp
    qed
  qed
  from this [of "(bp, bd)"] show ?thesis by simp
qed

lemma two_opt_loop_terminates: "\<exists>r. two_opt_loop M bp bd = Some r"
proof (induction bp bd rule: two_opt_loop_induct [where M = M])
  case (round bp bd)
  show ?case
    by (subst two_opt_loop.simps) (auto split: sum.splits option.splits intro: round)
qed

text \<open>
  C7: \<^verbatim>\<open>two_opt_improvement\<close> terminates for every input path and distance matrix: the
  \<^verbatim>\<open>while\<close> loop ends after finitely many accepted moves, with the returned path or
  with an exception of a length computation. Every accepted move has a strictly smaller
  length and is a rearrangement of the path, of which there are finitely many.
\<close>

theorem two_opt_improvement_terminates:
  "\<exists>r. two_opt_improvement path distance_matrix = Some r"
proof (cases "calculate_path_distance path distance_matrix")
  case (Inl e)
  then show ?thesis by (simp add: two_opt_improvement_def)
next
  case (Inr d)
  then show ?thesis
    using two_opt_loop_terminates [of distance_matrix path d]
    by (simp add: two_opt_improvement_def)
qed

section \<open>Properties of the 2-opt move and of the local search\<close>

lemma length_two_opt_swap:
  assumes "i \<le> j" "j < length p"
  shows "length (two_opt_swap p (int i) (int j)) = length p"
  using mset_two_opt_swap [OF assms] by (rule mset_eq_length)

lemma two_opt_swap_nth:
  assumes "i \<le> j" "j < length p" "k < length p"
  shows "two_opt_swap p (int i) (int j) ! k = (if k < i \<or> j < k then p ! k else p ! (i + j - k))"
proof -
  let ?seg = "take (Suc j - i) (drop i p)"
  have len: "length ?seg = Suc j - i" using assms by simp
  have sw: "two_opt_swap p (int i) (int j) = take i p @ rev ?seg @ drop (Suc j) p"
    by (rule two_opt_swap_in_range [OF assms(1,2)])
  consider "k < i" | "i \<le> k" "k \<le> j" | "j < k" by linarith
  then show ?thesis
  proof cases
    case 1
    then show ?thesis using assms by (simp add: sw nth_append)
  next
    case 2
    have "(take i p @ rev ?seg @ drop (Suc j) p) ! k = rev ?seg ! (k - i)"
      using 2 assms by (simp add: nth_append)
    also have "\<dots> = ?seg ! (j - k)"
      using 2 assms len by (simp add: rev_nth)
    also have "\<dots> = p ! (i + j - k)"
      using 2 assms by simp
    finally show ?thesis using 2 by (simp add: sw)
  next
    case 3
    have "\<not> k < i" "\<not> k - i < Suc j - i" "k - i - (Suc j - i) = k - Suc j"
      using 3 assms by linarith+
    then have "(take i p @ rev ?seg @ drop (Suc j) p) ! k = drop (Suc j) p ! (k - Suc j)"
      using assms len by (simp add: nth_append)
    also have "\<dots> = p ! k" using 3 assms by simp
    finally show ?thesis using 3 by (simp add: sw)
  qed
qed

lemma two_opt_pass_frame:
  assumes "two_opt_pass M bp bd = Inr (Some (np, nd))"
  shows "length np = length bp \<and> np ! 0 = bp ! 0 \<and> np ! (length bp - 1) = bp ! (length bp - 1)"
proof -
  from two_opt_pass_Some [OF assms] obtain i j where
    ij: "1 \<le> i" "i < j" "j + 2 \<le> length bp" and np: "np = two_opt_swap bp (int i) (int j)"
    by blast
  have a: "i \<le> j" "j < length bp" and b: "0 < length bp" "length bp - 1 < length bp"
    and c: "0 < i" "j < length bp - 1" using ij by auto
  have "np ! 0 = bp ! 0"
    using two_opt_swap_nth [OF a b(1)] c by (simp add: np)
  moreover have "np ! (length bp - 1) = bp ! (length bp - 1)"
    using two_opt_swap_nth [OF a b(2)] c by (simp add: np)
  ultimately show ?thesis
    by (simp add: np length_two_opt_swap [OF a])
qed

lemma two_opt_loop_result:
  assumes "two_opt_loop M bp bd = Some (Inr out)" "calculate_path_distance bp M = Inr bd"
  shows "\<exists>d. calculate_path_distance out M = Inr d \<and> d \<le> bd \<and> two_opt_pass M out d = Inr None"
  using assms
proof (induction bp bd rule: two_opt_loop_induct [where M = M])
  case (round bp bd)
  show ?case
  proof (cases "two_opt_pass M bp bd")
    case (Inl e)
    with round.prems(1) show ?thesis by (simp add: two_opt_loop.simps)
  next
    case (Inr r)
    show ?thesis
    proof (cases r)
      case None
      with Inr round.prems show ?thesis by (simp add: two_opt_loop.simps)
    next
      case (Some found)
      obtain np nd where f: "found = (np, nd)" by (cases found)
      have p: "two_opt_pass M bp bd = Inr (Some (np, nd))" using Inr Some f by simp
      from two_opt_pass_Some [OF p]
      have d: "calculate_path_distance np M = Inr nd" "nd < bd" by auto
      have "two_opt_loop M np nd = Some (Inr out)"
        using round.prems(1) p by (subst (asm) two_opt_loop.simps) simp
      from round.IH [OF p this d(1)] d(2) show ?thesis by auto
    qed
  qed
qed

lemma two_opt_loop_frame:
  assumes "two_opt_loop M bp bd = Some (Inr out)"
  shows "length out = length bp \<and> out ! 0 = bp ! 0 \<and> out ! (length bp - 1) = bp ! (length bp - 1)
     \<and> mset out = mset bp"
  using assms
proof (induction bp bd rule: two_opt_loop_induct [where M = M])
  case (round bp bd)
  show ?case
  proof (cases "two_opt_pass M bp bd")
    case (Inl e)
    with round.prems(1) show ?thesis by (simp add: two_opt_loop.simps)
  next
    case (Inr r)
    show ?thesis
    proof (cases r)
      case None
      with Inr round.prems show ?thesis by (simp add: two_opt_loop.simps)
    next
      case (Some found)
      obtain np nd where f: "found = (np, nd)" by (cases found)
      have p: "two_opt_pass M bp bd = Inr (Some (np, nd))" using Inr Some f by simp
      have "two_opt_loop M np nd = Some (Inr out)"
        using round.prems(1) p by (subst (asm) two_opt_loop.simps) simp
      from round.IH [OF p this] two_opt_pass_frame [OF p] two_opt_pass_mset [OF p]
      show ?thesis by simp
    qed
  qed
qed

lemma two_opt_state_inv:
  "two_opt_state M path bp bd \<Longrightarrow>
     calculate_path_distance bp M = Inr bd \<and> length bp = length path \<and> mset bp = mset path"
proof (induction rule: two_opt_state.induct)
  case (initial d)
  then show ?case by simp
next
  case (accepted bp bd np nd)
  from two_opt_pass_Some [OF accepted.hyps(2)] two_opt_pass_frame [OF accepted.hyps(2)]
    two_opt_pass_mset [OF accepted.hyps(2)] accepted.IH
  show ?case by auto
qed

lemma two_opt_pass_short:
  "length bp \<le> 3 \<Longrightarrow> two_opt_pass M bp bd = Inr None"
  by (simp add: two_opt_pass_def)

lemma line4_start [simp]: "calculate_path_distance [0, 2, 1, 3] line4 = Inr 5"
  by (simp add: calculate_path_distance_def py_get_def line4_def)

lemma line4_pass:
  "two_opt_pass line4 [0, 2, 1, 3] 5 = Inr (Some ([0, 1, 2, 3], 3))"
  by code_simp

lemma line4_run: "two_opt_improvement [0, 2, 1, 3] line4 = Some (Inr [0, 1, 2, 3])"
  by code_simp



text \<open>
  C6: \<^verbatim>\<open>two_opt_improvement\<close> is idempotent: applied to a path it has returned, with the
  same matrix, it returns that path unchanged.
\<close>

theorem two_opt_idempotent:
  assumes "two_opt_improvement path M = Some (Inr out)"
  shows "two_opt_improvement out M = Some (Inr out)"
proof -
  from assms obtain d0 where d0: "calculate_path_distance path M = Inr d0"
    and l: "two_opt_loop M path d0 = Some (Inr out)"
    by (auto simp: two_opt_improvement_def split: sum.splits)
  from two_opt_loop_result [OF l d0] obtain d where
    "calculate_path_distance out M = Inr d" "two_opt_pass M out d = Inr None" by blast
  then show ?thesis
    by (simp add: two_opt_improvement_def two_opt_loop.simps)
qed

theorem two_opt_idempotent_witness:
  "two_opt_improvement [0, 2, 1, 3] line4 = Some (Inr [0, 1, 2, 3])
   \<and> two_opt_improvement [0, 1, 2, 3] line4 = Some (Inr [0, 1, 2, 3])"
  using two_opt_idempotent [OF line4_run] line4_run by simp

text \<open>
  C8: \<^verbatim>\<open>two_opt_improvement\<close> holds the first and the last position fixed: the returned
  path has the length \<^verbatim>\<open>n\<close> of the input path and the same elements at the positions
  \<^verbatim>\<open>0\<close> and \<^verbatim>\<open>n - 1\<close>; and every accepted move of the run is a \<^verbatim>\<open>two_opt_swap\<close> at a
  pair \<^verbatim>\<open>(i, j)\<close> with \<^verbatim>\<open>1 <= i < j <= n - 2\<close>.
\<close>

theorem two_opt_keeps_ends:
  "(two_opt_improvement path M = Some (Inr out) \<longrightarrow>
      length out = length path \<and> out ! 0 = path ! 0 \<and>
      out ! (length path - 1) = path ! (length path - 1))
   \<and> (two_opt_state M path best_path best_distance \<and>
      two_opt_pass M best_path best_distance = Inr (Some (new_path, new_distance)) \<longrightarrow>
       (\<exists>i j. 1 \<le> i \<and> i < j \<and> j + 2 \<le> length path \<and>
              new_path = two_opt_swap best_path (int i) (int j)))"
proof -
  have run: "length out = length path \<and> out ! 0 = path ! 0 \<and>
      out ! (length path - 1) = path ! (length path - 1)"
    if "two_opt_improvement path M = Some (Inr out)"
  proof -
    from that obtain d0 where "two_opt_loop M path d0 = Some (Inr out)"
      by (auto simp: two_opt_improvement_def split: sum.splits)
    from two_opt_loop_frame [OF this] show ?thesis by simp
  qed
  have move: "\<exists>i j. 1 \<le> i \<and> i < j \<and> j + 2 \<le> length path \<and>
              new_path = two_opt_swap best_path (int i) (int j)"
    if "two_opt_state M path best_path best_distance"
      "two_opt_pass M best_path best_distance = Inr (Some (new_path, new_distance))"
    using two_opt_state_inv [OF that(1)] two_opt_pass_Some [OF that(2)] by auto
  from move run show ?thesis by blast
qed

theorem two_opt_keeps_ends_witness:
  "two_opt_improvement [0, 2, 1, 3] line4 = Some (Inr [0, 1, 2, 3])
   \<and> [0, 1, 2, 3 :: int] ! 0 = [0, 2, 1, 3] ! 0
   \<and> [0, 1, 2, 3 :: int] ! (length [0, 2, 1, 3 :: int] - 1)
        = [0, 2, 1, 3] ! (length [0, 2, 1, 3 :: int] - 1)
   \<and> two_opt_state line4 [0, 2, 1, 3] [0, 2, 1, 3] 5
   \<and> two_opt_pass line4 [0, 2, 1, 3] 5 = Inr (Some ([0, 1, 2, 3], 3))
   \<and> [0, 1, 2, 3] = two_opt_swap [0, 2, 1, 3 :: int] (int 1) (int 2)"
  using two_opt_keeps_ends
      [of "[0, 2, 1, 3]" line4 "[0, 1, 2, 3]" "[0, 2, 1, 3]" 5 "[0, 1, 2, 3]" 3]
    two_opt_state.initial [OF line4_start] line4_pass line4_run
  by (simp add: two_opt_swap_def py_slice_def py_slice_to_def py_slice_from_def py_bound_def)

lemma path_distance_from_ok:
  assumes "\<forall>row\<in>set M. length row = length M"
    "\<forall>x\<in>set path. - int (length M) \<le> x \<and> x < int (length M)"
  shows "\<exists>d. path_distance_from M tot path = Inr d"
  using assms(2)
proof (induction path arbitrary: tot)
  case Nil
  then show ?case by simp
next
  case (Cons a rest)
  show ?case
  proof (cases rest)
    case Nil
    then show ?thesis by simp
  next
    case (Cons b rest')
    have a: "- int (length M) \<le> a" "a < int (length M)"
      and b: "- int (length M) \<le> b" "b < int (length M)"
      using Cons.prems Cons by auto
    from py_get_row [OF a] obtain row where row: "row \<in> set M" "py_get M a = Inr row"
      by blast
    then have "length row = length M" using assms(1) by simp
    with py_get_row [of row b] b obtain d where d: "py_get row b = Inr d"
      by auto
    have "\<exists>d'. path_distance_from M (tot + d) rest = Inr d'"
      using Cons.prems by (intro Cons.IH) simp
    then show ?thesis using row(2) d Cons by simp
  qed
qed

text \<open>
  C9: for a path of length at most 3 the ranges of the pair scan are empty, so one pass
  attempts no swap and finds no improving pair, whatever the matrix and the distance to
  beat; and \<^verbatim>\<open>two_opt_improvement\<close> returns the input path unchanged. A path is a path of
  its matrix here: the matrix is square and every element of the path is an index of
  it, which Python accepts from \<^verbatim>\<open>-n\<close> up to \<^verbatim>\<open>n - 1\<close>.
\<close>

theorem two_opt_short_path:
  assumes "length path \<le> 3"
  shows "two_opt_pass M path d = Inr None
     \<and> ((\<forall>row\<in>set M. length row = length M)
          \<and> (\<forall>x\<in>set path. - int (length M) \<le> x \<and> x < int (length M)) \<longrightarrow>
        two_opt_improvement path M = Some (Inr path))"
proof -
  have pass: "two_opt_pass M path d' = Inr None" for d'
    using assms by (rule two_opt_pass_short)
  have "two_opt_improvement path M = Some (Inr path)"
    if "\<forall>row\<in>set M. length row = length M"
      "\<forall>x\<in>set path. - int (length M) \<le> x \<and> x < int (length M)"
  proof -
    from path_distance_from_ok [OF that, of 0] obtain d0 where
      "calculate_path_distance path M = Inr d0"
      by (auto simp: calculate_path_distance_def)
    then show ?thesis
      by (simp add: two_opt_improvement_def two_opt_loop.simps pass)
  qed
  with pass show ?thesis by blast
qed

theorem two_opt_short_path_witness:
  "length [0, 2, 1 :: int] \<le> 3
   \<and> list_all (\<lambda>row. length row = length [[0, 9, 1], [9, 0, 1], [1, 1, 0 :: real]])
        [[0, 9, 1], [9, 0, 1], [1, 1, 0 :: real]]
   \<and> list_all (\<lambda>x. - int (length [[0, 9, 1], [9, 0, 1], [1, 1, 0 :: real]]) \<le> x
                  \<and> x < int (length [[0, 9, 1], [9, 0, 1], [1, 1, 0 :: real]])) [0, 2, 1]
   \<and> two_opt_pass [[0, 9, 1], [9, 0, 1], [1, 1, 0 :: real]] [0, 2, 1] 2 = Inr None
   \<and> two_opt_improvement [0, 2, 1] [[0, 9, 1], [9, 0, 1], [1, 1, 0 :: real]]
        = Some (Inr [0, 2, 1])"
  using two_opt_short_path [of "[0, 2, 1]" "[[0, 9, 1], [9, 0, 1], [1, 1, 0 :: real]]" 2]
  by (simp add: list_all_iff)

text \<open>
  C10: for indices \<^verbatim>\<open>0 <= i <= j < len(path)\<close>, \<^verbatim>\<open>two_opt_swap\<close> returns a list of the
  same length with the same elements in the same multiplicities: the positions before
  \<^verbatim>\<open>i\<close> and after \<^verbatim>\<open>j\<close> are unchanged, and position \<^verbatim>\<open>k\<close> of the segment from \<^verbatim>\<open>i\<close>
  to \<^verbatim>\<open>j\<close> holds the element of position \<^verbatim>\<open>i + j - k\<close>. A permutation of \<^verbatim>\<open>0..n-1\<close>
  therefore stays one.
\<close>

theorem two_opt_swap_rearranges:
  assumes "0 \<le> i" "i \<le> j" "j < int (length path)"
  shows "length (two_opt_swap path i j) = length path
     \<and> mset (two_opt_swap path i j) = mset path
     \<and> (\<forall>k<length path. two_opt_swap path i j ! k =
           (if int k < i \<or> j < int k then path ! k else path ! nat (i + j - int k)))
     \<and> (mset path = mset (map int [0 ..< length path]) \<longrightarrow>
          mset (two_opt_swap path i j) = mset (map int [0 ..< length path]))"
proof -
  obtain a b where ab: "i = int a" "j = int b" using assms
    by (metis nonneg_int_cases order_trans)
  have r: "a \<le> b" "b < length path" using assms ab by auto
  have "nat (int a + int b - int k) = a + b - k" for k
    by linarith
  then show ?thesis
    using length_two_opt_swap [OF r] mset_two_opt_swap [OF r] two_opt_swap_nth [OF r]
    by (simp add: ab)
qed

theorem two_opt_swap_rearranges_witness:
  "(0::int) \<le> 1 \<and> (1::int) \<le> 3 \<and> 3 < int (length [0, 1, 2, 3, 4 :: int])
   \<and> two_opt_swap [0, 1, 2, 3, 4 :: int] 1 3 = [0, 3, 2, 1, 4]
   \<and> mset (two_opt_swap [0, 1, 2, 3, 4 :: int] 1 3) = mset [0, 1, 2, 3, 4]"
  using two_opt_swap_rearranges [of 1 3 "[0, 1, 2, 3, 4 :: int]"]
  by (simp add: two_opt_swap_def py_slice_def py_slice_to_def py_slice_from_def py_bound_def)

section \<open>Properties of the greedy construction\<close>

lemma py_less_PosInf: "py_less d PosInf \<longleftrightarrow> d \<noteq> PosInf \<and> d \<noteq> NaN"
  by (cases d) simp_all

lemma scan_candidates_finds:
  assumes "length visited = n" "py_get M current = Inr row" "n \<le> length row"
    "\<forall>d\<in>set row. py_less d PosInf"
    "\<forall>c\<in>set cs. c < n" "np0 \<noteq> None \<or> md0 = PosInf"
  shows "\<exists>np md. scan_candidates M visited current cs (np0, md0) = Inr (np, md)
     \<and> (np0 \<noteq> None \<or> (\<exists>c\<in>set cs. \<not> visited ! c) \<longrightarrow> np \<noteq> None)
     \<and> (\<forall>c. np = Some c \<longrightarrow> np0 = Some c \<or> (c \<in> set cs \<and> \<not> visited ! c))"
  using assms(5,6)
proof (induction cs arbitrary: np0 md0)
  case Nil
  then show ?case by simp
next
  case (Cons c cs)
  have c: "c < n" and cs: "\<forall>c\<in>set cs. c < n" using Cons.prems(1) by auto
  have v: "py_get visited (int c) = Inr (visited ! c)"
    using c assms(1) by (simp add: py_get_nat)
  have r: "py_get row (int c) = Inr (row ! c)"
    using c assms(3) by (simp add: py_get_nat)
  have fin: "py_less (row ! c) PosInf"
    using c assms(3,4) by simp
  show ?case
  proof (cases "visited ! c")
    case True
    from Cons.IH [OF cs Cons.prems(2)] True v show ?thesis by auto
  next
    case False
    show ?thesis
    proof (cases "py_less (row ! c) md0")
      case True
      have "Some c \<noteq> None \<or> row ! c = PosInf" by simp
      from Cons.IH [OF cs this] obtain np md where
        "scan_candidates M visited current cs (Some c, row ! c) = Inr (np, md)"
        "np \<noteq> None" "\<forall>c'. np = Some c' \<longrightarrow> c' = c \<or> (c' \<in> set cs \<and> \<not> visited ! c')"
        by auto
      then show ?thesis using False True v r assms(2) by auto
    next
      case nb: False
      then have "md0 \<noteq> PosInf" using fin by auto
      then have "np0 \<noteq> None" using Cons.prems(2) by simp
      with Cons.IH [OF cs Cons.prems(2)] False nb v r assms(2) show ?thesis by auto
    qed
  qed
qed

lemma finite_unvisited [simp]: "finite (unvisited visited)"
  by (simp add: unvisited_def)

lemma unvisited_update:
  "c < length visited \<Longrightarrow> unvisited (visited[c := True]) = unvisited visited - {c}"
  by (auto simp: unvisited_def nth_list_update)

lemma greedy_rounds_ok:
  assumes "length M = n" "\<forall>row\<in>set M. length row = n"
    "\<forall>row\<in>set M. \<forall>d\<in>set row. py_less d PosInf"
  shows "length visited = n \<Longrightarrow> path \<noteq> [] \<Longrightarrow> - int n \<le> last path \<Longrightarrow> last path < int n \<Longrightarrow>
     k \<le> card (unvisited visited) \<Longrightarrow>
     \<exists>out. greedy_rounds M n k visited path = Inr (path @ out) \<and> length out = k \<and> distinct out
        \<and> (\<forall>x\<in>set out. 0 \<le> x \<and> x < int n \<and> \<not> visited ! nat x)"
proof (induction k arbitrary: visited path)
  case 0
  then show ?case by simp
next
  case (Suc k)
  from py_get_row [of M "last path"] Suc.prems assms obtain row where
    row: "py_get M (last path) = Inr row" "length row = n" "\<forall>d\<in>set row. py_less d PosInf"
    by auto
  have "unvisited visited \<noteq> {}" using Suc.prems(5) by auto
  then have ex: "\<exists>c\<in>set [0 ..< n]. \<not> visited ! c"
    using Suc.prems(1) by (auto simp: unvisited_def)
  have "\<forall>c\<in>set [0 ..< n]. c < n" by simp
  from scan_candidates_finds [OF Suc.prems(1) row(1) _ row(3) this, of None PosInf] row(2) ex
  obtain c md where
    sc: "scan_candidates M visited (last path) [0 ..< n] (None, PosInf) = Inr (Some c, md)"
    and c: "c < n" "\<not> visited ! c"
    by auto
  let ?v = "visited[c := True]"
  have set: "py_set visited (int c) True = Inr ?v"
    using c Suc.prems(1) by (simp add: py_set_nat)
  have "c \<in> unvisited visited" using c Suc.prems(1) by (simp add: unvisited_def)
  then have "card (unvisited ?v) = card (unvisited visited) - 1"
    using c Suc.prems(1) by (simp add: unvisited_update)
  then have k: "k \<le> card (unvisited ?v)" using Suc.prems(5) by simp
  have "\<exists>out. greedy_rounds M n k ?v (path @ [int c]) = Inr ((path @ [int c]) @ out)
      \<and> length out = k \<and> distinct out
      \<and> (\<forall>x\<in>set out. 0 \<le> x \<and> x < int n \<and> \<not> ?v ! nat x)"
    using c Suc.prems(1) k by (intro Suc.IH) auto
  then obtain out where out:
    "greedy_rounds M n k ?v (path @ [int c]) = Inr ((path @ [int c]) @ out)"
    "length out = k" "distinct out" "\<forall>x\<in>set out. 0 \<le> x \<and> x < int n \<and> \<not> ?v ! nat x"
    by blast
  have fresh: "x \<noteq> int c \<and> \<not> visited ! nat x" if "x \<in> set out" for x
  proof -
    from out(4) that have x: "0 \<le> x" "x < int n" "\<not> ?v ! nat x" by auto
    then have "nat x \<noteq> c" using c Suc.prems(1) by auto
    then show ?thesis using x by auto
  qed
  have "greedy_rounds M n (Suc k) visited path = Inr (path @ (int c # out))"
    using Suc.prems(2) sc set out(1) by (simp add: py_get_last)
  moreover have "distinct (int c # out)" using out(3) fresh by auto
  moreover have "\<forall>x\<in>set (int c # out). 0 \<le> x \<and> x < int n \<and> \<not> visited ! nat x"
    using c out(4) fresh by auto
  ultimately show ?case using out(2) by (intro exI [of _ "int c # out"]) simp
qed


lemma unvisited_start:
  assumes "c < n"
  shows "card (unvisited ((replicate n False)[c := True])) = n - 1"
proof -
  have "unvisited (replicate n False) = {0 ..< n}"
    by (auto simp: unvisited_def)
  then have "unvisited ((replicate n False)[c := True]) = {0 ..< n} - {c}"
    using assms by (simp add: unvisited_update)
  then show ?thesis using assms by simp
qed

lemma greedy_tsp_ok:
  assumes "\<forall>row\<in>set M. length row = length M"
    "\<forall>row\<in>set M. \<forall>d\<in>set row. py_less d PosInf"
    "- int (length M) \<le> start" "start < int (length M)"
  shows "\<exists>out. greedy_tsp M start = Inr (start # out) \<and> length out = length M - 1 \<and> distinct out
     \<and> (\<forall>x\<in>set out. 0 \<le> x \<and> x < int (length M) \<and> x \<noteq> start \<and> x \<noteq> start + int (length M))"
proof -
  let ?n = "length M"
  define c where "c = (if 0 \<le> start then nat start else nat (start + int ?n))"
  have c: "c < ?n" using assms(3,4) by (auto simp: c_def)
  let ?v = "(replicate ?n False)[c := True]"
  have set: "py_set (replicate ?n False) start True = Inr ?v"
    using assms(3,4) by (auto simp: py_set_def c_def)
  have "\<exists>out. greedy_rounds M ?n (?n - 1) ?v [start] = Inr ([start] @ out)
     \<and> length out = ?n - 1 \<and> distinct out
     \<and> (\<forall>x\<in>set out. 0 \<le> x \<and> x < int ?n \<and> \<not> ?v ! nat x)"
    using assms c by (intro greedy_rounds_ok) (simp_all add: unvisited_start)
  then obtain out where out: "greedy_rounds M ?n (?n - 1) ?v [start] = Inr ([start] @ out)"
    "length out = ?n - 1" "distinct out" "\<forall>x\<in>set out. 0 \<le> x \<and> x < int ?n \<and> \<not> ?v ! nat x"
    by blast
  have "x \<noteq> start \<and> x \<noteq> start + int ?n" if "x \<in> set out" for x
  proof -
    from out(4) that have x: "0 \<le> x" "x < int ?n" "\<not> ?v ! nat x" by auto
    then have "nat x \<noteq> c" using c by auto
    then show ?thesis using x assms(3,4) by (auto simp: c_def split: if_splits)
  qed
  then show ?thesis
    using out set by (intro exI [of _ out]) (simp add: greedy_tsp_def Let_def)
qed

text \<open>
  C4, as amended: on an \<^verbatim>\<open>n x n\<close> matrix with \<^verbatim>\<open>n >= 1\<close> whose entries all compare below
  \<^verbatim>\<open>float('inf')\<close> (no entry is infinite or not a number), and with a start index in
  \<^verbatim>\<open>[0, n)\<close>, \<^verbatim>\<open>greedy_tsp\<close> returns a list of length \<^verbatim>\<open>n\<close> that begins with the start
  index and is a permutation of \<^verbatim>\<open>0..n-1\<close>: no repeats, no omissions. For every square
  matrix the claim fails: an entry \<^verbatim>\<open>inf\<close> or \<^verbatim>\<open>nan\<close> is never below \<^verbatim>\<open>min_distance\<close>,
  so \<^verbatim>\<open>next_place\<close> can stay \<^verbatim>\<open>None\<close> and \<^verbatim>\<open>visited[None] = True\<close> raises
  \<^verbatim>\<open>TypeError\<close>. The matrix of two places at distance \<^verbatim>\<open>inf\<close> is such a matrix, and so
  is the matrix that \<^verbatim>\<open>create_distance_matrix\<close> builds for two places when a coordinate
  read from the file is \<^verbatim>\<open>nan\<close>.
\<close>

theorem greedy_tsp_permutation:
  assumes "1 \<le> length M" "\<forall>row\<in>set M. length row = length M"
    "\<forall>row\<in>set M. \<forall>d\<in>set row. py_less d PosInf"
    "0 \<le> start" "start < int (length M)"
  shows "\<exists>path. greedy_tsp M start = Inr path \<and> length path = length M
     \<and> hd path = start \<and> distinct path \<and> set path = {0 ..< int (length M)}
     \<and> mset path = mset (map int [0 ..< length M])"
proof -
  have "- int (length M) \<le> start" using assms(4) by linarith
  from greedy_tsp_ok [OF assms(2,3) this assms(5)] obtain out where out:
    "greedy_tsp M start = Inr (start # out)" "length out = length M - 1" "distinct out"
    "\<forall>x\<in>set out. 0 \<le> x \<and> x < int (length M) \<and> x \<noteq> start \<and> x \<noteq> start + int (length M)"
    by blast
  let ?p = "start # out"
  have d: "distinct ?p" using out(3,4) by auto
  have l: "length ?p = length M" using out(2) assms(1) by simp
  have sub: "set ?p \<subseteq> {0 ..< int (length M)}" using out(4) assms(4,5) by auto
  have "card (set ?p) = card {0 ..< int (length M)}"
    using distinct_card [OF d] l by simp
  with sub have s: "set ?p = {0 ..< int (length M)}"
    by (intro card_subset_eq) auto
  have "distinct (map int [0 ..< length M])" by (simp add: distinct_map)
  moreover have "set (map int [0 ..< length M]) = {0 ..< int (length M)}"
  proof (intro set_eqI iffI)
    fix x assume "x \<in> set (map int [0 ..< length M])"
    then show "x \<in> {0 ..< int (length M)}" by auto
  next
    fix x assume "x \<in> {0 ..< int (length M)}"
    then have "x = int (nat x)" "nat x < length M" by auto
    then show "x \<in> set (map int [0 ..< length M])"
      by (metis atLeastLessThan_iff imageI set_map set_upt zero_le)
  qed
  ultimately have "mset ?p = mset (map int [0 ..< length M])"
    using d s by (metis set_eq_iff_mset_eq_distinct)
  with out(1) d l s show ?thesis by auto
qed

lemma line4_floats_square: "list_all (\<lambda>row. length row = length line4_floats) line4_floats"
  by (simp add: line4_floats_def line4_def)

lemma line4_floats_finite: "list_all (list_all (\<lambda>d. py_less d PosInf)) line4_floats"
  by (simp add: line4_floats_def line4_def)

lemma line4_greedy: "greedy_tsp line4_floats 2 = Inr [2, 1, 0, 3]"
  by code_simp

theorem greedy_tsp_permutation_witness:
  "1 \<le> length line4_floats
   \<and> list_all (\<lambda>row. length row = length line4_floats) line4_floats
   \<and> list_all (list_all (\<lambda>d. py_less d PosInf)) line4_floats
   \<and> (0::int) \<le> 2 \<and> 2 < int (length line4_floats)
   \<and> greedy_tsp line4_floats 2 = Inr [2, 1, 0, 3]
   \<and> set [2, 1, 0, 3] = {0 ..< int (length line4_floats)}"
  using greedy_tsp_permutation [of line4_floats 2] line4_greedy
    line4_floats_square line4_floats_finite
  by (simp add: list_all_iff) (simp add: line4_floats_def line4_def)

theorem greedy_tsp_infinite_entry:
  "1 \<le> length [[Num 0, PosInf], [PosInf, Num (0 :: real)]]
   \<and> list_all (\<lambda>row. length row = length [[Num 0, PosInf], [PosInf, Num (0 :: real)]])
        [[Num 0, PosInf], [PosInf, Num (0 :: real)]]
   \<and> (0::int) \<le> 0 \<and> 0 < int (length [[Num 0, PosInf], [PosInf, Num (0 :: real)]])
   \<and> greedy_tsp [[Num 0, PosInf], [PosInf, Num (0 :: real)]] 0 = Inl TypeError
   \<and> greedy_tsp [[Num 0, NaN], [NaN, Num (0 :: real)]] 0 = Inl TypeError"
  by (simp add: greedy_tsp_def py_set_def py_get_def)

text \<open>
  C3, as amended: on the empty matrix (\<^verbatim>\<open>n == 0\<close>) \<^verbatim>\<open>greedy_tsp\<close> raises \<^verbatim>\<open>IndexError\<close>
  for every start index, since \<^verbatim>\<open>visited\<close> is empty and \<^verbatim>\<open>visited[start_index] = True\<close>
  fails. It does not return an empty tour; \<^verbatim>\<open>main\<close> returns before it calls the solver
  when it has read no place.
\<close>

theorem greedy_tsp_empty_raises: "greedy_tsp [] start = Inl IndexError"
  by (simp add: greedy_tsp_def py_set_def)

theorem greedy_tsp_empty_start_0:
  "greedy_tsp ([] :: real pyfloat list list) 0 = Inl IndexError"
  by (simp add: greedy_tsp_def py_set_def)

text \<open>
  C2, as amended: \<^verbatim>\<open>greedy_tsp\<close> raises \<^verbatim>\<open>IndexError\<close> whenever the start index is
  outside \<^verbatim>\<open>[-n, n)\<close>, that is for every start index \<^verbatim>\<open>>= n\<close> and for every start index
  \<^verbatim>\<open>< -n\<close>. A negative start index from \<^verbatim>\<open>-n\<close> on is no error: it counts from the end
  of \<^verbatim>\<open>visited\<close> and of the matrix, and on an \<^verbatim>\<open>n x n\<close> matrix whose entries all compare
  below \<^verbatim>\<open>float('inf')\<close> the call returns a path that begins with that negative index.
\<close>

theorem greedy_tsp_start_range:
  "(int (length M) \<le> start \<or> start < - int (length M) \<longrightarrow> greedy_tsp M start = Inl IndexError)
   \<and> ((\<forall>row\<in>set M. length row = length M)
        \<and> (\<forall>row\<in>set M. \<forall>d\<in>set row. py_less d PosInf)
        \<and> - int (length M) \<le> start \<and> start < 0 \<longrightarrow>
        (\<exists>rest. greedy_tsp M start = Inr (start # rest)))"
proof -
  have "greedy_tsp M start = Inl IndexError"
    if "int (length M) \<le> start \<or> start < - int (length M)"
    using that by (auto simp: greedy_tsp_def py_set_def Let_def)
  moreover have "\<exists>rest. greedy_tsp M start = Inr (start # rest)"
    if "\<forall>row\<in>set M. length row = length M"
      "\<forall>row\<in>set M. \<forall>d\<in>set row. py_less d PosInf"
      "- int (length M) \<le> start" "start < 0"
  proof -
    have "start < int (length M)" using that(4) by linarith
    from greedy_tsp_ok [OF that(1,2,3) this] show ?thesis by blast
  qed
  ultimately show ?thesis by blast
qed

lemma line4_greedy_last: "greedy_tsp line4_floats (- 1) = Inr [- 1, 2, 1, 0]"
  by code_simp

theorem greedy_tsp_start_range_witness:
  "int (length line4_floats) \<le> 4 \<and> greedy_tsp line4_floats 4 = Inl IndexError
   \<and> - 5 < - int (length line4_floats) \<and> greedy_tsp line4_floats (- 5) = Inl IndexError
   \<and> list_all (\<lambda>row. length row = length line4_floats) line4_floats
   \<and> list_all (list_all (\<lambda>d. py_less d PosInf)) line4_floats
   \<and> - int (length line4_floats) \<le> - 1 \<and> (- 1 :: int) < 0
   \<and> greedy_tsp line4_floats (- 1) = Inr [- 1, 2, 1, 0]"
  using greedy_tsp_start_range [of line4_floats 4] greedy_tsp_start_range [of line4_floats "- 5"]
    greedy_tsp_start_range [of line4_floats "- 1"] line4_greedy_last
    line4_floats_square line4_floats_finite
  by (simp add: list_all_iff) (simp add: line4_floats_def line4_def)

theorem greedy_tsp_negative_start_accepted:
  "\<not> (0 \<le> (- 1 :: int) \<and> - 1 < int (length [[Num (0 :: real)]]))
   \<and> greedy_tsp [[Num (0 :: real)]] (- 1) = Inr [- 1]"
  by (simp add: greedy_tsp_def py_set_def)

end
